theory Spec2Isabelle
  imports Main
begin

section \<open>TODO Tok: the annotation scanner and its store\<close>

text \<open>
  A shallow embedding of \<^verbatim>\<open>src/services/todo-manager.ts\<close> (class \<^verbatim>\<open>TodoManager\<close>),
  of \<^verbatim>\<open>removeTodo\<close> in \<^verbatim>\<open>src/services/todo-finder.ts\<close> and of the \<^verbatim>\<open>complete\<close>
  branch of the panel's message handler. The VS Code host (file listing, stat, document
  text, positions, edits, git blame, configuration, clock) is a record of functions
  passed to every operation. Asynchronous methods are modelled at the granularity of
  whole calls: a background continuation that has been started but not yet run is
  returned as a value (the files it still has to process) and run by a separate call.
  The file watcher is represented by its two handlers. Status listeners, the output
  channel and the debug log only observe the state and are left out.
\<close>

subsection \<open>Regular expressions with JavaScript's backtracking order\<close>

text \<open>
  The expression built by \<^verbatim>\<open>new RegExp(..., 'gim')\<close> is a value of \<open>re\<close>.
  \<open>Rep greedy n r\<close> is \<open>r{n,}\<close> (\<open>r*\<close> for \<open>n = 0\<close>, \<open>r+\<close> for \<open>n = 1\<close>),
  lazy when \<open>greedy\<close> is false; \<open>Opt\<close> is \<open>r?\<close>; \<open>Cap k r\<close> is the capturing group
  number \<open>k\<close>; \<open>EOL\<close> is \<open>$\<close> under the \<open>m\<close> flag; \<open>WS\<close> is \<open>\s\<close>; \<open>Dot\<close> is \<open>.\<close>.
  Characters are 8-bit code units; the \<open>i\<close> flag and \<^verbatim>\<open>toUpperCase\<close> fold the ASCII
  letters.
\<close>

datatype re =
    Eps
  | Chr char
  | Dot
  | WS
  | OneOf "char list"
  | Cat re re
  | Or re re
  | Rep bool nat re
  | Opt bool re
  | Cap nat re
  | EOL

text \<open>Captures: group number, start offset, end offset.\<close>

type_synonym caps = "(nat \<times> (nat \<times> nat)) list"

text \<open>A matcher state: the offset reached, the text still ahead of it, the captures.\<close>

type_synonym mstate = "nat \<times> string \<times> caps"

definition toUpperChar :: "char \<Rightarrow> char" where
  "toUpperChar c =
     (case map_of (zip ''abcdefghijklmnopqrstuvwxyz'' ''ABCDEFGHIJKLMNOPQRSTUVWXYZ'') c of
        Some u \<Rightarrow> u
      | None \<Rightarrow> c)"

definition toUpperCase :: "string \<Rightarrow> string" where
  "toUpperCase s = map toUpperChar s"

text \<open>White space and line terminators, as \<open>\s\<close> and \<^verbatim>\<open>trim()\<close> see them.\<close>

definition isSpace :: "char \<Rightarrow> bool" where
  "isSpace c =
     (c \<in> set [CHR 0x09, CHR 0x0A, CHR 0x0B, CHR 0x0C, CHR 0x0D, CHR 0x20, CHR 0xA0])"

definition isLineTerminator :: "char \<Rightarrow> bool" where
  "isLineTerminator c = (c \<in> set [CHR 0x0A, CHR 0x0D])"

definition trim :: "string \<Rightarrow> string" where
  "trim s = rev (dropWhile isSpace (rev (dropWhile isSpace s)))"

fun capsOf :: "re \<Rightarrow> nat list" where
  "capsOf (Cat a b) = capsOf a @ capsOf b"
| "capsOf (Or a b) = capsOf a @ capsOf b"
| "capsOf (Rep g n r) = capsOf r"
| "capsOf (Opt g r) = capsOf r"
| "capsOf (Cap k r) = k # capsOf r"
| "capsOf _ = []"

text \<open>Entering a quantified sub-expression resets the captures inside it.\<close>

fun clearCaps :: "re \<Rightarrow> mstate \<Rightarrow> mstate" where
  "clearCaps r (i, rest, cs) = (i, rest, filter (\<lambda>kv. fst kv \<notin> set (capsOf r)) cs)"

definition setCap :: "nat \<Rightarrow> nat \<times> nat \<Rightarrow> caps \<Rightarrow> caps" where
  "setCap k v cs = (k, v) # filter (\<lambda>kv. fst kv \<noteq> k) cs"

fun step1 :: "(char \<Rightarrow> bool) \<Rightarrow> mstate \<Rightarrow> mstate list" where
  "step1 p (i, [], cs) = []"
| "step1 p (i, d # ds, cs) = (if p d then [(Suc i, ds, cs)] else [])"

fun atEOL :: "mstate \<Rightarrow> bool" where
  "atEOL (i, [], cs) = True"
| "atEOL (i, d # ds, cs) = isLineTerminator d"

fun rsize :: "re \<Rightarrow> nat" where
  "rsize (Cat a b) = Suc (rsize a + rsize b)"
| "rsize (Or a b) = Suc (rsize a + rsize b)"
| "rsize (Rep g n r) = Suc (Suc (rsize r) + n)"
| "rsize (Opt g r) = Suc (rsize r)"
| "rsize (Cap k r) = Suc (rsize r)"
| "rsize _ = 0"

text \<open>
  \<open>rmatch r x\<close> lists every way \<open>r\<close> can match from \<open>x\<close>, in the order in which a
  backtracking matcher tries them: the head of the list is the match JavaScript
  reports. A greedy quantifier lists the longer matches first, a lazy one the shorter
  ones. An iteration of \<open>r*\<close> that consumes nothing is rejected, as in ECMAScript.
\<close>

function rmatch :: "re \<Rightarrow> mstate \<Rightarrow> mstate list" where
  "rmatch Eps x = [x]"
| "rmatch (Chr c) x = step1 (\<lambda>d. toUpperChar d = toUpperChar c) x"
| "rmatch Dot x = step1 (\<lambda>d. \<not> isLineTerminator d) x"
| "rmatch WS x = step1 isSpace x"
| "rmatch (OneOf cs) x = step1 (\<lambda>d. toUpperChar d \<in> set (map toUpperChar cs)) x"
| "rmatch EOL x = (if atEOL x then [x] else [])"
| "rmatch (Cat a b) x = concat (map (\<lambda>y. rmatch b y) (rmatch a x))"
| "rmatch (Or a b) x = rmatch a x @ rmatch b x"
| "rmatch (Cap k r) x =
     map (\<lambda>y. (fst y, fst (snd y), setCap k (fst x, fst y) (snd (snd y)))) (rmatch r x)"
| "rmatch (Opt g r) x =
     (let ys = filter (\<lambda>y. fst y \<noteq> fst x) (rmatch r (clearCaps r x))
      in if g then ys @ [x] else x # ys)"
| "rmatch (Rep g (Suc n) r) x =
     concat (map (\<lambda>y. rmatch (Rep g n r) y) (rmatch r (clearCaps r x)))"
| "rmatch (Rep g 0 r) x =
     (let ys = concat (map (\<lambda>y. if length (fst (snd y)) < length (fst (snd x))
                                  then rmatch (Rep g 0 r) y else [])
                           (rmatch r (clearCaps r x)))
      in if g then ys @ [x] else x # ys)"
  by pat_completeness auto
termination
  by (relation "inv_image (less_than <*lex*> less_than)
                  (\<lambda>(r, x). (rsize r, length (fst (snd x))))")
     auto

fun lit :: "string \<Rightarrow> re" where
  "lit [] = Eps"
| "lit (c # cs) = Cat (Chr c) (lit cs)"

fun alts :: "re list \<Rightarrow> re" where
  "alts [] = OneOf []"
| "alts [r] = r"
| "alts (r # rs) = Or r (alts rs)"

text \<open>
  The default marker pattern of \<^verbatim>\<open>initialize\<close>:
  \<^verbatim>\<open>(?:TODO|TO-DO|TO_DO|FIXME|FIX-ME|FIX_ME|XXX|HACK|BUG|OPTIMIZE|REVIEW)\<close>.
\<close>

definition defaultPattern :: re where
  "defaultPattern =
     alts (map lit [''TODO'', ''TO-DO'', ''TO_DO'', ''FIXME'', ''FIX-ME'', ''FIX_ME'',
                    ''XXX'', ''HACK'', ''BUG'', ''OPTIMIZE'', ''REVIEW''])"

text \<open>The comment openers \<^verbatim>\<open>//|/\*|\*|#|<!--|"""|'''|--|%%|\{-|\(\*|;\<close>.\<close>

definition openers :: re where
  "openers =
     alts (map lit [''//'', ''/*'', ''*'', ''#'', ''<!--'',
                    [CHR 0x22, CHR 0x22, CHR 0x22], [CHR 0x27, CHR 0x27, CHR 0x27],
                    ''--'', ''%%'', ''{-'', ''(*'', '';''])"

text \<open>The closers \<^verbatim>\<open>\*/|-->|"""|'''|\-\}|\*\)|$\<close>.\<close>

definition closers :: re where
  "closers =
     alts (map lit [''*/'', ''-->'',
                    [CHR 0x22, CHR 0x22, CHR 0x22], [CHR 0x27, CHR 0x27, CHR 0x27],
                    ''-}'', ''*)''] @ [EOL])"

text \<open>
  The expression of \<^verbatim>\<open>processBatch\<close> (and of \<^verbatim>\<open>findTodos\<close>, which builds the same one):
  \<^verbatim>\<open>(?:(?:openers)\s*)(pattern)(?:[:_-])?\s*(.+?)\s*(?:closers)\<close>.
  The marker pattern \<open>pat\<close> is the configured sub-expression as parsed; capturing groups
  of its own, numbered from 2, push the message group further right, as the textual
  insertion in the source does.
\<close>

definition todoRegex :: "re \<Rightarrow> re" where
  "todoRegex pat =
     Cat (Cat openers (Rep True 0 WS))
    (Cat (Cap 1 pat)
    (Cat (Opt True (OneOf '':_-''))
    (Cat (Rep True 0 WS)
    (Cat (Cap (2 + length (capsOf pat)) (Rep False 1 Dot))
    (Cat (Rep True 0 WS) closers)))))"

text \<open>
  \<^verbatim>\<open>regex.exec\<close>: the leftmost start offset at or after \<open>i\<close> with a match, and the first
  match there. The text is given by its suffix from offset \<open>i\<close>.
\<close>

fun regexExec :: "re \<Rightarrow> nat \<Rightarrow> string \<Rightarrow> (nat \<times> mstate) option" where
  "regexExec r i [] =
     (case rmatch r (i, [], []) of [] \<Rightarrow> None | y # _ \<Rightarrow> Some (i, y))"
| "regexExec r i (c # cs) =
     (case rmatch r (i, c # cs, []) of
        [] \<Rightarrow> regexExec r (Suc i) cs
      | y # _ \<Rightarrow> Some (i, y))"

text \<open>
  The loop \<^verbatim>\<open>while ((match = regex.exec(text)) !== null)\<close> with the \<open>g\<close> flag: each
  call resumes at the end of the previous match. The recursion is well-founded through
  the test on the lengths. The loop is only ever run on \<open>todoRegex\<close>, whose matches
  start with an opener and so are never empty: there the test always succeeds and the
  other branch, where the source would not advance, is never taken (lemmas
  \<open>todoRegex_advances\<close> and \<open>execLoop_todoRegex\<close> below).
\<close>

function execLoop :: "re \<Rightarrow> nat \<Rightarrow> string \<Rightarrow> (nat \<times> mstate) list" where
  "execLoop r i rest =
     (case regexExec r i rest of
        None \<Rightarrow> []
      | Some (start, e, rest', cs) \<Rightarrow>
          if length rest' < length rest
          then (start, e, rest', cs) # execLoop r e rest'
          else [(start, e, rest', cs)])"
  by pat_completeness auto
termination
  by (relation "measure (\<lambda>(r, i, rest). length rest)") auto

definition substring :: "string \<Rightarrow> nat \<times> nat \<Rightarrow> string" where
  "substring txt se = take (snd se - fst se) (drop (fst se) txt)"

text \<open>\<^verbatim>\<open>match[k]\<close>: the captured text, \<open>None\<close> for \<^verbatim>\<open>undefined\<close>.\<close>

definition matchGroup :: "string \<Rightarrow> caps \<Rightarrow> nat \<Rightarrow> string option" where
  "matchGroup txt cs k = map_option (substring txt) (map_of cs k)"

text \<open>JavaScript truthiness of \<^verbatim>\<open>match[k]\<close>: defined and not the empty string.\<close>

definition truthy :: "string option \<Rightarrow> bool" where
  "truthy v = (case v of None \<Rightarrow> False | Some s \<Rightarrow> s \<noteq> [])"

subsection \<open>Data model\<close>

type_synonym position = "nat \<times> nat"

record Todo =
  todo_text :: string
  todo_file :: string
  line :: nat
  column :: nat
  todo_range :: "position \<times> position"
  author :: "string option"

record FileCache =
  lastChecked :: nat
  lastModified :: int

datatype scan_state = Idle | Searching | Complete

record ProcessingStatus =
  currentFile :: "string option"
  filesProcessed :: nat
  totalFiles :: nat
  state :: scan_state

text \<open>
  The fields of \<^verbatim>\<open>TodoManager\<close>. \<open>todoPattern\<close> is \<open>None\<close> when the configured string
  is not a regular expression (the \<^verbatim>\<open>RegExp\<close> constructor then throws inside the
  per-file \<^verbatim>\<open>try\<close>). \<open>opened\<close> is not a field of the source: it records, in order,
  the files for which \<^verbatim>\<open>openTextDocument\<close> was called, so that "this file was read"
  can be stated.
\<close>

record TodoManager =
  fileCache :: "string \<rightharpoonup> FileCache"
  processedFiles :: "string set"
  todos :: "Todo list"
  todosByFile :: "string \<rightharpoonup> Todo list"
  isProcessing :: bool
  todoPattern :: "re option"
  status :: ProcessingStatus
  opened :: "string list"

text \<open>\<^verbatim>\<open>private batchSize: number = 20\<close>, never assigned again.\<close>

definition batchSize :: nat where
  "batchSize = 20"

subsection \<open>The host\<close>

datatype listing =
    NoWorkspace
  | ListingFails
  | Listing "string list list"

datatype pattern_config = Unset | Parsed re | Malformed

datatype notice = InfoMessage string | WarningMessage string | ErrorMessage string

text \<open>
  \<open>workspace\<close>: no folder open, \<^verbatim>\<open>findFiles\<close> throwing, or the files found for each
  include glob (a file is identified with its \<^verbatim>\<open>fsPath\<close>). \<open>stat\<close> gives the mtime
  and \<open>openTextDocument\<close> the text; \<open>None\<close> is a thrown error. \<open>gitBlame\<close> is the author
  that \<^verbatim>\<open>git blame --porcelain\<close> reports for a 1-based line, \<open>None\<close> when the command
  fails or prints no author. \<open>applyEdit\<close> is the outcome of deleting a range.
\<close>

record host =
  workspace :: listing
  stat :: "string \<Rightarrow> int option"
  openTextDocument :: "string \<Rightarrow> string option"
  positionAt :: "string \<Rightarrow> nat \<Rightarrow> position"
  asRelativePath :: "string \<Rightarrow> string"
  enableGitBlame :: bool
  inWorkspaceFolder :: "string \<Rightarrow> bool"
  gitBlame :: "string \<Rightarrow> nat \<Rightarrow> string option"
  now :: nat
  configTodoPattern :: pattern_config
  applyEdit :: "string \<Rightarrow> position \<times> position \<Rightarrow> bool option"

subsection \<open>TodoManager\<close>

definition idleStatus :: ProcessingStatus where
  "idleStatus = \<lparr>currentFile = None, filesProcessed = 0, totalFiles = 0, state = Idle\<rparr>"

definition initialize :: "host \<Rightarrow> TodoManager \<Rightarrow> TodoManager" where
  "initialize h m =
     m\<lparr>todoPattern :=
         (case configTodoPattern h of
            Unset \<Rightarrow> Some defaultPattern
          | Parsed r \<Rightarrow> Some r
          | Malformed \<Rightarrow> None),
       todos := [],
       processedFiles := {},
       fileCache := Map.empty,
       isProcessing := False,
       status := idleStatus\<rparr>"

text \<open>The field initialisers of the class, followed by the constructor's \<^verbatim>\<open>initialize()\<close>.\<close>

definition newTodoManager :: "host \<Rightarrow> TodoManager" where
  "newTodoManager h =
     initialize h
       \<lparr>fileCache = Map.empty, processedFiles = {}, todos = [], todosByFile = Map.empty,
        isProcessing = False, todoPattern = Some Eps, status = idleStatus, opened = []\<rparr>"

text \<open>
  \<^verbatim>\<open>getInstance\<close>, given the static \<^verbatim>\<open>TodoManager.instance\<close>; the result is both the
  returned handle and the new value of the static.
\<close>

definition getInstance :: "host \<Rightarrow> TodoManager option \<Rightarrow> TodoManager" where
  "getInstance h inst =
     (case inst of
        None \<Rightarrow> newTodoManager h
      | Some m \<Rightarrow> initialize h m)"

definition getGitAuthor :: "host \<Rightarrow> string \<Rightarrow> nat \<Rightarrow> string option" where
  "getGitAuthor h filePath lineNumber =
     (if \<not> enableGitBlame h then None
      else if \<not> inWorkspaceFolder h filePath then None
      else gitBlame h filePath (lineNumber + 1))"

text \<open>The local variables \<^verbatim>\<open>todoType\<close> and \<^verbatim>\<open>todoText\<close> of the match loop.\<close>

definition todoType :: "string \<Rightarrow> caps \<Rightarrow> string" where
  "todoType txt cs = (case matchGroup txt cs 1 of None \<Rightarrow> [] | Some g \<Rightarrow> trim (toUpperCase g))"

definition todoText :: "string \<Rightarrow> caps \<Rightarrow> string" where
  "todoText txt cs = (case matchGroup txt cs 2 of None \<Rightarrow> [] | Some g \<Rightarrow> trim g)"

text \<open>The guard \<^verbatim>\<open>if (match[1] && match[2])\<close>.\<close>

definition emitted :: "string \<Rightarrow> nat \<times> mstate \<Rightarrow> bool" where
  "emitted txt mt =
     (case mt of (start, e, rest, cs) \<Rightarrow>
        truthy (matchGroup txt cs 1) \<and> truthy (matchGroup txt cs 2))"

definition makeTodo :: "host \<Rightarrow> string \<Rightarrow> string \<Rightarrow> nat \<times> mstate \<Rightarrow> Todo" where
  "makeTodo h f txt mt =
     (case mt of (start, e, rest, cs) \<Rightarrow>
        let pos = positionAt h txt start;
            endPosition = positionAt h txt e
        in \<lparr>todo_text = ''['' @ todoType txt cs @ ''] '' @ todoText txt cs,
            todo_file = f,
            line = fst pos,
            column = snd pos,
            todo_range = (pos, endPosition),
            author = getGitAuthor h f (fst pos)\<rparr>)"

text \<open>All annotations of one document, in source order (the body of the match loop).\<close>

definition matchTodos :: "host \<Rightarrow> re \<Rightarrow> string \<Rightarrow> string \<Rightarrow> Todo list" where
  "matchTodos h pat f txt =
     map (makeTodo h f txt) (filter (emitted txt) (execLoop (todoRegex pat) 0 txt))"

text \<open>\<^verbatim>\<open>cached && cached.lastModified === stats.mtime\<close>\<close>

definition cacheHit :: "FileCache option \<Rightarrow> int \<Rightarrow> bool" where
  "cacheHit cached mtime =
     (case cached of None \<Rightarrow> False | Some c \<Rightarrow> lastModified c = mtime)"

text \<open>
  One iteration of the \<^verbatim>\<open>for (const file of files)\<close> loop of \<^verbatim>\<open>processBatch\<close>: the
  annotations it pushes and the manager afterwards. An error thrown by \<^verbatim>\<open>stat\<close>,
  \<^verbatim>\<open>openTextDocument\<close> or the \<^verbatim>\<open>RegExp\<close> constructor is caught: the iteration ends
  there and the file is not marked as processed.
\<close>

definition processFile :: "host \<Rightarrow> string \<Rightarrow> TodoManager \<Rightarrow> Todo list \<times> TodoManager" where
  "processFile h f m =
     (if f \<in> processedFiles m
      then ([], m\<lparr>status := (status m)\<lparr>filesProcessed := filesProcessed (status m) + 1\<rparr>\<rparr>)
      else
        let m1 = m\<lparr>status := (status m)\<lparr>currentFile := Some (asRelativePath h f),
                                        filesProcessed := filesProcessed (status m) + 1\<rparr>\<rparr>
        in (case stat h f of
              None \<Rightarrow> ([], m1)
            | Some mtime \<Rightarrow>
                if cacheHit (fileCache m1 f) mtime
                then ([], m1\<lparr>processedFiles := insert f (processedFiles m1)\<rparr>)
                else
                  let m2 = m1\<lparr>opened := opened m1 @ [f]\<rparr>
                  in (case openTextDocument h f of
                        None \<Rightarrow> ([], m2)
                      | Some txt \<Rightarrow>
                          (case todoPattern m2 of
                             None \<Rightarrow> ([], m2)
                           | Some pat \<Rightarrow>
                               let fileTodos = matchTodos h pat f txt;
                                   grouped =
                                     (if fileTodos \<noteq> []
                                      then (todosByFile m2)(f := Some fileTodos)
                                      else todosByFile m2);
                                   entry = \<lparr>lastChecked = now h, lastModified = mtime\<rparr>
                               in (fileTodos,
                                   m2\<lparr>todos := todos m2 @ fileTodos,
                                      todosByFile := grouped,
                                      fileCache := (fileCache m2)(f := Some entry),
                                      processedFiles := insert f (processedFiles m2)\<rparr>)))))"

fun processBatchFrom ::
  "host \<Rightarrow> string list \<Rightarrow> Todo list \<Rightarrow> TodoManager \<Rightarrow> Todo list \<times> TodoManager" where
  "processBatchFrom h [] newTodos m = (newTodos, m)"
| "processBatchFrom h (f # fs) newTodos m =
     (case processFile h f m of
        (fileTodos, m') \<Rightarrow> processBatchFrom h fs (newTodos @ fileTodos) m')"

definition processBatch :: "host \<Rightarrow> string list \<Rightarrow> TodoManager \<Rightarrow> Todo list \<times> TodoManager" where
  "processBatch h files m = processBatchFrom h files [] m"

text \<open>\<^verbatim>\<open>Array.prototype.slice(start, end)\<close> on integers, negative indices counting from the end.\<close>

definition slice :: "'a list \<Rightarrow> int \<Rightarrow> int \<Rightarrow> 'a list" where
  "slice xs start fin =
     (let len = int (length xs);
          k = (if start < 0 then max (len + start) 0 else min start len);
          final = (if fin < 0 then max (len + fin) 0 else min fin len)
      in take (nat (final - k)) (drop (nat k) xs))"

text \<open>The \<^verbatim>\<open>for (let i = 0; i < files.length; i += this.batchSize)\<close> loop.\<close>

function batchLoop :: "host \<Rightarrow> string list \<Rightarrow> nat \<Rightarrow> TodoManager \<Rightarrow> TodoManager" where
  "batchLoop h files i m =
     (if i < length files
      then batchLoop h files (i + batchSize)
             (snd (processBatch h (slice files (int i) (int i + int batchSize)) m))
      else m)"
  by pat_completeness auto
termination
  by (relation "measure (\<lambda>(h, files, i, m). length files - i)") (auto simp: batchSize_def)

definition processRemainingFiles :: "host \<Rightarrow> string list \<Rightarrow> TodoManager \<Rightarrow> TodoManager" where
  "processRemainingFiles h files m =
     (let m' = batchLoop h files 0 m
      in m'\<lparr>isProcessing := False,
            status := (status m')\<lparr>state := Complete, currentFile := None\<rparr>\<rparr>)"

text \<open>
  \<^verbatim>\<open>Array.from(new Set(...))\<close>: the first occurrence of every file, in order.
\<close>

definition dedupe :: "string list \<Rightarrow> string list" where
  "dedupe xs = rev (remdups (rev xs))"

text \<open>
  \<^verbatim>\<open>initializeStream\<close>: the first batch it returns, the manager at that point, and the
  files handed to the background call \<^verbatim>\<open>processRemainingFiles\<close>, which is started but
  not awaited (\<open>None\<close> when no such call is made).
\<close>

definition initializeStream ::
  "host \<Rightarrow> TodoManager \<Rightarrow> Todo list \<times> TodoManager \<times> string list option" where
  "initializeStream h m =
     (case workspace h of
        NoWorkspace \<Rightarrow> ([], m, None)
      | ListingFails \<Rightarrow>
          ([], m\<lparr>todos := [], processedFiles := {}, isProcessing := True,
                 status := (status m)\<lparr>state := Complete, filesProcessed := 0\<rparr>\<rparr>, None)
      | Listing found \<Rightarrow>
          let m1 = m\<lparr>todos := [], processedFiles := {}, isProcessing := True,
                     status := (status m)\<lparr>state := Searching, filesProcessed := 0\<rparr>\<rparr>;
              allFiles = dedupe (concat found);
              m2 = m1\<lparr>status := (status m1)\<lparr>totalFiles := length allFiles\<rparr>\<rparr>
          in case processBatch h (slice allFiles 0 (int batchSize)) m2 of
               (initialBatch, m3) \<Rightarrow>
                 if length allFiles > batchSize
                 then (initialBatch, m3, Some (slice allFiles (int batchSize) (int (length allFiles))))
                 else (initialBatch, m3\<lparr>status := (status m3)\<lparr>state := Complete\<rparr>\<rparr>, None))"

definition getNextBatch :: "TodoManager \<Rightarrow> int \<Rightarrow> Todo list" where
  "getNextBatch m startIndex =
     (let fin = min (startIndex + int batchSize) (int (length (todos m)))
      in slice (todos m) startIndex fin)"

definition getTotalCount :: "TodoManager \<Rightarrow> nat" where
  "getTotalCount m = length (todos m)"

definition isStillProcessing :: "TodoManager \<Rightarrow> bool" where
  "isStillProcessing m = isProcessing m"

definition refreshTodos :: "host \<Rightarrow> TodoManager \<Rightarrow> TodoManager \<times> string list option" where
  "refreshTodos h m =
     snd (initializeStream h (m\<lparr>todos := [], processedFiles := {}, fileCache := Map.empty\<rparr>))"

definition getStatus :: "TodoManager \<Rightarrow> ProcessingStatus" where
  "getStatus m = status m"

definition getTodosInFile :: "TodoManager \<Rightarrow> string \<Rightarrow> Todo list" where
  "getTodosInFile m filePath = (case todosByFile m filePath of None \<Rightarrow> [] | Some ts \<Rightarrow> ts)"

definition getTodoCountInFile :: "TodoManager \<Rightarrow> string \<Rightarrow> nat" where
  "getTodoCountInFile m filePath =
     (case todosByFile m filePath of None \<Rightarrow> 0 | Some ts \<Rightarrow> length ts)"

text \<open>The two handlers installed by \<^verbatim>\<open>setupFileWatcher\<close>.\<close>

definition onDidChange ::
  "host \<Rightarrow> string \<Rightarrow> TodoManager \<Rightarrow> TodoManager \<times> string list option" where
  "onDidChange h filePath m =
     (let m1 = m\<lparr>fileCache := (fileCache m)(filePath := None),
                 processedFiles := processedFiles m - {filePath}\<rparr>
      in if list_ex (\<lambda>todo. todo_file todo = filePath) (todos m1)
         then refreshTodos h m1
         else (m1, None))"

definition onDidDelete :: "string \<Rightarrow> TodoManager \<Rightarrow> TodoManager" where
  "onDidDelete filePath m =
     m\<lparr>fileCache := (fileCache m)(filePath := None),
       processedFiles := processedFiles m - {filePath},
       todos := filter (\<lambda>todo. todo_file todo \<noteq> filePath) (todos m)\<rparr>"

text \<open>\<^verbatim>\<open>dispose\<close>: the manager it leaves behind (the static instance becomes undefined).\<close>

definition dispose :: "TodoManager \<Rightarrow> TodoManager" where
  "dispose m =
     m\<lparr>todos := [], todosByFile := Map.empty, processedFiles := {},
       fileCache := Map.empty, isProcessing := False\<rparr>"

text \<open>The two loops are unfolded only on demand.\<close>

declare rmatch.simps(12) [simp del]

declare execLoop.simps [simp del]

declare batchLoop.simps [simp del]

subsection \<open>Removing an annotation\<close>

text \<open>
  \<^verbatim>\<open>removeTodo\<close> of \<^verbatim>\<open>todo-finder.ts\<close>: its result and the message it shows. The
  argument is \<open>None\<close> for a missing item; a \<^verbatim>\<open>Todo\<close> always carries a range, so the
  test \<^verbatim>\<open>!todo.range\<close> has no counterpart.
\<close>

definition removeTodo :: "host \<Rightarrow> Todo option \<Rightarrow> bool \<times> notice" where
  "removeTodo h todo =
     (case todo of
        None \<Rightarrow> (False, ErrorMessage ''TODO Tok: Invalid TODO item. Cannot remove.'')
      | Some t \<Rightarrow>
          if todo_file t = []
          then (False, ErrorMessage ''TODO Tok: Invalid TODO item. Cannot remove.'')
          else
            (case openTextDocument h (todo_file t) of
               None \<Rightarrow> (False, ErrorMessage ''TODO Tok: Error removing TODO. Please try again.'')
             | Some document \<Rightarrow>
                 (case applyEdit h (todo_file t) (todo_range t) of
                    None \<Rightarrow>
                      (False, ErrorMessage ''TODO Tok: Error removing TODO. Please try again.'')
                  | Some success \<Rightarrow>
                      if success
                      then (True, InfoMessage ''TODO Tok: Successfully removed TODO.'')
                      else (False, WarningMessage
                              ''TODO Tok: Could not remove TODO. The file might be read-only.''))))"

text \<open>
  The part of \<^verbatim>\<open>TodoPanelProvider\<close> that the \<^verbatim>\<open>complete\<close> message touches. The
  fields \<^verbatim>\<open>_todos\<close>, \<^verbatim>\<open>_currentTodoIndex\<close>, \<^verbatim>\<open>_loading\<close>, \<^verbatim>\<open>_loadedAllTodos\<close> and
  \<^verbatim>\<open>_todoManager\<close> keep their names without the underscore; \<open>p_background\<close> collects
  the background continuations that the panel's scans have started.
\<close>

record TodoPanel =
  p_todos :: "Todo list"
  p_currentTodoIndex :: nat
  p_loading :: bool
  p_loadedAllTodos :: bool
  p_todoManager :: TodoManager
  p_background :: "string list list"

definition loadInitialTodos :: "host \<Rightarrow> TodoPanel \<Rightarrow> TodoPanel" where
  "loadInitialTodos h p =
     (case initializeStream h (p_todoManager p) of
        (ts, m', bg) \<Rightarrow>
          let p1 = p\<lparr>p_todos := ts,
                     p_todoManager := m',
                     p_background :=
                       p_background p @ (case bg of None \<Rightarrow> [] | Some fs \<Rightarrow> [fs]),
                     p_loading := False\<rparr>
          in if ts = [] then p1
             else p1\<lparr>p_currentTodoIndex := 0, p_loadedAllTodos := (length ts < 20)\<rparr>)"

text \<open>The \<^verbatim>\<open>case 'complete'\<close> branch of \<^verbatim>\<open>_handleMessage\<close>, with the messages shown.\<close>

definition handleComplete :: "host \<Rightarrow> TodoPanel \<Rightarrow> TodoPanel \<times> notice list" where
  "handleComplete h p =
     (if p_currentTodoIndex p < length (p_todos p)
      then
        (case removeTodo h (Some (p_todos p ! p_currentTodoIndex p)) of
           (success, shown) \<Rightarrow>
             if success then (loadInitialTodos h p, [shown]) else (p, [shown]))
      else (p, []))"

subsection \<open>What a scan is expected to do with one file\<close>

text \<open>
  The File Index Cache contract of the specification: a file is skipped when a cache
  entry exists for it whose fingerprint equals the current mtime.
\<close>

definition shouldSkip :: "host \<Rightarrow> (string \<rightharpoonup> FileCache) \<Rightarrow> string \<Rightarrow> bool" where
  "shouldSkip h cache f =
     (case stat h f of
        None \<Rightarrow> False
      | Some mtime \<Rightarrow>
          (case cache f of None \<Rightarrow> False | Some c \<Rightarrow> lastModified c = mtime))"

text \<open>A file is read when its stat succeeds and it is not skipped.\<close>

definition isRead :: "host \<Rightarrow> (string \<rightharpoonup> FileCache) \<Rightarrow> string \<Rightarrow> bool" where
  "isRead h cache f = (stat h f \<noteq> None \<and> \<not> shouldSkip h cache f)"

text \<open>The annotations found in a file's current text; none when it cannot be read.\<close>

definition fileAnnotations :: "host \<Rightarrow> re option \<Rightarrow> string \<Rightarrow> Todo list" where
  "fileAnnotations h pat f =
     (case stat h f of
        None \<Rightarrow> []
      | Some mtime \<Rightarrow>
          (case openTextDocument h f of
             None \<Rightarrow> []
           | Some txt \<Rightarrow> (case pat of None \<Rightarrow> [] | Some p \<Rightarrow> matchTodos h p f txt)))"

definition contribution ::
  "host \<Rightarrow> re option \<Rightarrow> (string \<rightharpoonup> FileCache) \<Rightarrow> string \<Rightarrow> Todo list" where
  "contribution h pat cache f = (if shouldSkip h cache f then [] else fileAnnotations h pat f)"

text \<open>Kind and message of every annotation that the match loop emits for a text.\<close>

definition candidates :: "re \<Rightarrow> string \<Rightarrow> (string \<times> string) list" where
  "candidates pat txt =
     map (\<lambda>mt. (todoType txt (snd (snd (snd mt))), todoText txt (snd (snd (snd mt)))))
         (filter (emitted txt) (execLoop (todoRegex pat) 0 txt))"

text \<open>
  The manager as \<^verbatim>\<open>initializeStream\<close> has reset it when the first batch begins, and
  the manager after every enumerated file has been processed in order.
\<close>

definition scanStart :: "TodoManager \<Rightarrow> nat \<Rightarrow> TodoManager" where
  "scanStart m n =
     m\<lparr>todos := [], processedFiles := {}, isProcessing := True,
       status := (status m)\<lparr>state := Searching, filesProcessed := 0, totalFiles := n\<rparr>\<rparr>"

definition scanAll :: "host \<Rightarrow> string list list \<Rightarrow> TodoManager \<Rightarrow> TodoManager" where
  "scanAll h found m =
     snd (processBatchFrom h (dedupe (concat found)) []
            (scanStart m (length (dedupe (concat found)))))"

text \<open>A scan followed by its background continuation, when it started one.\<close>

definition runBackground ::
  "host \<Rightarrow> Todo list \<times> TodoManager \<times> string list option \<Rightarrow> TodoManager" where
  "runBackground h r =
     (case r of
        (ret, m, None) \<Rightarrow> m
      | (ret, m, Some files) \<Rightarrow> processRemainingFiles h files m)"

subsection \<open>Concrete hosts\<close>

text \<open>Line and column of an offset in a text whose lines end with a line feed.\<close>

definition lineColumn :: "string \<Rightarrow> nat \<Rightarrow> position" where
  "lineColumn txt off =
     (let lead = take off txt
      in (length (filter (\<lambda>c. c = CHR 0x0A) lead),
          length (takeWhile (\<lambda>c. c \<noteq> CHR 0x0A) (rev lead))))"

text \<open>
  A host over a table of files (path, mtime, text) and a listing; git blame is off, the
  marker pattern is not configured, and every edit is refused.
\<close>

definition tableHost :: "(string \<times> int \<times> string) list \<Rightarrow> string list list \<Rightarrow> host" where
  "tableHost table found =
     \<lparr>workspace = Listing found,
      stat = (\<lambda>p. map_option fst (map_of table p)),
      openTextDocument = (\<lambda>p. map_option snd (map_of table p)),
      positionAt = lineColumn,
      asRelativePath = (\<lambda>p. p),
      enableGitBlame = False,
      inWorkspaceFolder = (\<lambda>p. True),
      gitBlame = (\<lambda>p n. None),
      now = 0,
      configTodoPattern = Unset,
      applyEdit = (\<lambda>p r. Some False)\<rparr>"

definition threeTodos :: string where
  "threeTodos = ''// TODO: a'' @ [CHR 0x0A] @ ''// TODO: b'' @ [CHR 0x0A] @ ''// TODO: c''"

definition hostThree :: host where
  "hostThree = tableHost [(''a.ts'', 1, threeTodos)] [[''a.ts'']]"

definition hostOne :: host where
  "hostOne = tableHost [(''a.ts'', 1, ''// TODO: x'')] [[''a.ts'']]"

definition hostOneEdited :: host where
  "hostOneEdited = tableHost [(''a.ts'', 2, ''let x = 1;'')] [[''a.ts'']]"

definition files21 :: "string list" where
  "files21 = [''f01'', ''f02'', ''f03'', ''f04'', ''f05'', ''f06'', ''f07'', ''f08'', ''f09'',
              ''f10'', ''f11'', ''f12'', ''f13'', ''f14'', ''f15'', ''f16'', ''f17'', ''f18'',
              ''f19'', ''f20'', ''f21'']"

definition table21 :: "(string \<times> int \<times> string) list" where
  "table21 = map (\<lambda>f. (f, 1, if f = ''f21'' then ''// TODO: late''
                              else if f = ''f01'' then ''# FIXME first'' else [])) files21"

definition host21 :: host where
  "host21 = tableHost table21 [files21]"

text \<open>The same files, when the listing has shrunk to the first one.\<close>

definition host21Narrow :: host where
  "host21Narrow = tableHost table21 [[''f01'']]"

text \<open>The manager after a first scan of the one-file workspaces, and a panel on it.\<close>

definition managerThree :: TodoManager where
  "managerThree = runBackground hostThree (initializeStream hostThree (getInstance hostThree None))"

definition managerOne :: TodoManager where
  "managerOne = runBackground hostOne (initializeStream hostOne (getInstance hostOne None))"

text \<open>A store of 45 annotations: more than two batches.\<close>

definition manager45 :: TodoManager where
  "manager45 = managerThree\<lparr>todos := concat (replicate 15 (todos managerThree))\<rparr>"

definition panelOne :: TodoPanel where
  "panelOne =
     loadInitialTodos hostOne
       \<lparr>p_todos = [], p_currentTodoIndex = 0, p_loading = True, p_loadedAllTodos = False,
        p_todoManager = getInstance hostOne None, p_background = []\<rparr>"

text \<open>
  A scan of 21 files whose background continuation (the 21st file) is still pending
  when the listing shrinks and a refresh starts a new scan; the stale continuation then
  runs on the refreshed manager.
\<close>

definition staleFirst :: "Todo list \<times> TodoManager \<times> string list option" where
  "staleFirst = initializeStream host21 (getInstance host21 None)"

definition staleFresh :: "TodoManager \<times> string list option" where
  "staleFresh = refreshTodos host21Narrow (fst (snd staleFirst))"

definition staleAfter :: TodoManager where
  "staleAfter =
     processRemainingFiles host21Narrow
       (case snd (snd staleFirst) of None \<Rightarrow> [] | Some files \<Rightarrow> files) (fst staleFresh)"

section \<open>Properties\<close>

subsection \<open>The match loop always advances\<close>

text \<open>
  A match never moves backwards, and a match of \<open>todoRegex\<close> consumes at least its
  opener. So the test on the lengths in \<open>execLoop\<close> always succeeds for \<open>todoRegex\<close>:
  the loop is the plain iteration of \<^verbatim>\<open>exec\<close> until it returns \<^verbatim>\<open>null\<close>.
\<close>

lemma rmatch_Star:
  "set (rmatch (Rep g 0 r) x) =
     insert x (\<Union>z \<in> {z \<in> set (rmatch r (clearCaps r x)).
                         length (fst (snd z)) < length (fst (snd x))}.
                 set (rmatch (Rep g 0 r) z))"
  by (subst rmatch.simps(12)) (auto simp: Let_def split: if_splits)

lemma step1_shorter:
  "y \<in> set (step1 p x) \<Longrightarrow> length (fst (snd y)) < length (fst (snd x))"
proof -
  assume a: "y \<in> set (step1 p x)"
  obtain i rest cs where x: "x = (i, rest, cs)"
    by (cases x) auto
  show ?thesis
    using a unfolding x by (cases rest) (auto split: if_splits)
qed

lemma clearCaps_rest: "fst (snd (clearCaps r x)) = fst (snd x)"
  by (cases x) simp

lemma rmatch_Cat_elim:
  "y \<in> set (rmatch (Cat a b) x) \<Longrightarrow> \<exists>z \<in> set (rmatch a x). y \<in> set (rmatch b z)"
  by simp

lemma rmatch_shorter:
  "y \<in> set (rmatch r x) \<Longrightarrow> length (fst (snd y)) \<le> length (fst (snd x))"
proof (induction r x arbitrary: y rule: rmatch.induct)
  case (1 x)
  then show ?case by simp
next
  case (2 c x)
  then show ?case using step1_shorter [of y _ x] by (simp add: less_imp_le)
next
  case (3 x)
  then show ?case using step1_shorter [of y _ x] by (simp add: less_imp_le)
next
  case (4 x)
  then show ?case using step1_shorter [of y _ x] by (simp add: less_imp_le)
next
  case (5 cs x)
  then show ?case using step1_shorter [of y _ x] by (simp add: less_imp_le)
next
  case (6 x)
  then show ?case by (simp split: if_splits)
next
  case (7 a b x)
  from rmatch_Cat_elim [OF "7.prems"] obtain z where z: "z \<in> set (rmatch a x)"
    and y: "y \<in> set (rmatch b z)"
    by blast
  from "7.IH"(1) [OF z] "7.IH"(2) [OF z y] show ?case
    by simp
next
  case (8 a b x)
  from "8.prems" have "y \<in> set (rmatch a x) \<or> y \<in> set (rmatch b x)"
    by simp
  then show ?case
    using "8.IH"(1) [of y] "8.IH"(2) [of y] by blast
next
  case (9 k r x)
  from "9.prems" have "\<exists>z \<in> set (rmatch r x). fst (snd y) = fst (snd z)"
    by (simp add: image_iff) force
  then obtain z where z: "z \<in> set (rmatch r x)" and y: "fst (snd y) = fst (snd z)"
    by blast
  from "9.IH" [OF z] y show ?case
    by simp
next
  case (10 g r x)
  from "10.prems" have "y = x \<or> y \<in> set (rmatch r (clearCaps r x))"
    by (cases g) (simp_all add: Let_def, blast+)
  then show ?case
  proof
    assume "y = x"
    then show ?thesis by simp
  next
    assume "y \<in> set (rmatch r (clearCaps r x))"
    from "10.IH" [OF this] show ?thesis
      by (simp add: clearCaps_rest)
  qed
next
  case (11 g n r x)
  from "11.prems" have "\<exists>z \<in> set (rmatch r (clearCaps r x)). y \<in> set (rmatch (Rep g n r) z)"
    by simp
  then obtain z where z: "z \<in> set (rmatch r (clearCaps r x))"
    and y: "y \<in> set (rmatch (Rep g n r) z)"
    by blast
  from "11.IH"(1) [OF z] "11.IH"(2) [OF z y] show ?case
    by (simp add: clearCaps_rest)
next
  case (12 g r x)
  from "12.prems" have "y = x \<or> (\<exists>z \<in> set (rmatch r (clearCaps r x)).
      length (fst (snd z)) < length (fst (snd x)) \<and> y \<in> set (rmatch (Rep g 0 r) z))"
    by (subst (asm) rmatch_Star) blast
  then show ?case
  proof
    assume "y = x"
    then show ?thesis by simp
  next
    assume "\<exists>z \<in> set (rmatch r (clearCaps r x)).
      length (fst (snd z)) < length (fst (snd x)) \<and> y \<in> set (rmatch (Rep g 0 r) z)"
    then obtain z where z: "z \<in> set (rmatch r (clearCaps r x))"
      and lt: "length (fst (snd z)) < length (fst (snd x))"
      and y: "y \<in> set (rmatch (Rep g 0 r) z)"
      by blast
    from "12.IH"(2) [OF z lt y] lt show ?thesis
      by simp
  qed
qed

lemma lit_consumes:
  assumes "y \<in> set (rmatch (lit (c # cs)) x)"
  shows "length (fst (snd y)) < length (fst (snd x))"
proof -
  from assms have "y \<in> set (rmatch (Cat (Chr c) (lit cs)) x)"
    by simp
  from rmatch_Cat_elim [OF this] obtain z where z: "z \<in> set (rmatch (Chr c) x)"
    and y: "y \<in> set (rmatch (lit cs) z)"
    by blast
  from z have "z \<in> set (step1 (\<lambda>d. toUpperChar d = toUpperChar c) x)"
    by simp
  from step1_shorter [OF this] rmatch_shorter [OF y] show ?thesis
    by simp
qed

lemma alts_lits_consume:
  assumes "y \<in> set (rmatch (alts (map lit ws)) x)" and "\<forall>w \<in> set ws. w \<noteq> []"
  shows "length (fst (snd y)) < length (fst (snd x))"
  using assms
proof (induction ws)
  case Nil
  from Nil.prems(1) have "y \<in> set (step1 (\<lambda>d. toUpperChar d \<in> set (map toUpperChar [])) x)"
    by simp
  from step1_shorter [OF this] show ?case .
next
  case (Cons w ws)
  from Cons.prems(2) obtain c cs where w: "w = c # cs"
    by (cases w) auto
  show ?case
  proof (cases ws)
    case Nil
    with Cons.prems(1) have "y \<in> set (rmatch (lit (c # cs)) x)"
      by (simp add: w)
    from lit_consumes [OF this] show ?thesis .
  next
    case (Cons w' ws')
    with Cons.prems(1) have "y \<in> set (rmatch (Or (lit (c # cs)) (alts (map lit ws))) x)"
      by (simp add: w)
    then have "y \<in> set (rmatch (lit (c # cs)) x) \<or> y \<in> set (rmatch (alts (map lit ws)) x)"
      by (simp only: rmatch.simps set_append Un_iff)
    then show ?thesis
    proof
      assume "y \<in> set (rmatch (lit (c # cs)) x)"
      from lit_consumes [OF this] show ?thesis .
    next
      assume a: "y \<in> set (rmatch (alts (map lit ws)) x)"
      from Cons.prems(2) have "\<forall>w \<in> set ws. w \<noteq> []"
        by simp
      from Cons.IH [OF a this] show ?thesis .
    qed
  qed
qed

lemma openers_consume:
  "y \<in> set (rmatch openers x) \<Longrightarrow> length (fst (snd y)) < length (fst (snd x))"
  unfolding openers_def by (erule alts_lits_consume) simp

lemma todoRegex_advances:
  assumes "y \<in> set (rmatch (todoRegex pat) x)"
  shows "length (fst (snd y)) < length (fst (snd x))"
proof -
  from rmatch_Cat_elim [OF assms [unfolded todoRegex_def]]
  obtain z where z: "z \<in> set (rmatch (Cat openers (Rep True 0 WS)) x)"
    and y: "y \<in> set (rmatch (Cat (Cap 1 pat)
                (Cat (Opt True (OneOf '':_-''))
                (Cat (Rep True 0 WS)
                (Cat (Cap (2 + length (capsOf pat)) (Rep False 1 Dot))
                (Cat (Rep True 0 WS) closers))))) z)"
    by blast
  from rmatch_Cat_elim [OF z] obtain z' where z': "z' \<in> set (rmatch openers x)"
    and zz: "z \<in> set (rmatch (Rep True 0 WS) z')"
    by blast
  from openers_consume [OF z'] rmatch_shorter [OF zz] rmatch_shorter [OF y] show ?thesis
    by simp
qed

lemma regexExec_shorter:
  assumes "regexExec (todoRegex pat) i rest = Some (start, e, rest', cs)"
  shows "length rest' < length rest"
  using assms
proof (induction rest arbitrary: i)
  case Nil
  then obtain ys where "rmatch (todoRegex pat) (i, [], []) = (e, rest', cs) # ys"
    by (auto split: list.splits)
  then have "(e, rest', cs) \<in> set (rmatch (todoRegex pat) (i, [], []))"
    by simp
  from todoRegex_advances [OF this] show ?case
    by simp
next
  case (Cons c rest)
  show ?case
  proof (cases "rmatch (todoRegex pat) (i, c # rest, [])")
    case Nil
    with Cons.prems have "regexExec (todoRegex pat) (Suc i) rest = Some (start, e, rest', cs)"
      by simp
    from Cons.IH [OF this] show ?thesis
      by simp
  next
    case (Cons y ys)
    with Cons.prems have "y = (e, rest', cs)"
      by simp
    with Cons have "(e, rest', cs) \<in> set (rmatch (todoRegex pat) (i, c # rest, []))"
      by simp
    from todoRegex_advances [OF this] show ?thesis
      by simp
  qed
qed

lemma execLoop_todoRegex:
  "execLoop (todoRegex pat) i rest =
     (case regexExec (todoRegex pat) i rest of
        None \<Rightarrow> []
      | Some mt \<Rightarrow> mt # execLoop (todoRegex pat) (fst (snd mt)) (fst (snd (snd mt))))"
proof (cases "regexExec (todoRegex pat) i rest")
  case None
  then show ?thesis
    by (subst execLoop.simps) simp
next
  case (Some mt)
  obtain start e rest' cs where mt: "mt = (start, e, rest', cs)"
    by (cases mt) auto
  from Some regexExec_shorter [of pat i rest start e rest' cs] have "length rest' < length rest"
    by (simp add: mt)
  with Some show ?thesis
    by (subst execLoop.simps) (simp add: mt)
qed

subsection \<open>One file, one batch\<close>

lemma processFile_todos:
  "todos (snd (processFile h f m)) = todos m @ fst (processFile h f m)"
  by (simp add: processFile_def Let_def split: option.splits)

lemma processFile_frame:
  "todoPattern (snd (processFile h f m)) = todoPattern m"
  "isProcessing (snd (processFile h f m)) = isProcessing m"
  "state (status (snd (processFile h f m))) = state (status m)"
  "totalFiles (status (snd (processFile h f m))) = totalFiles (status m)"
  "filesProcessed (status (snd (processFile h f m))) = Suc (filesProcessed (status m))"
  by (simp_all add: processFile_def Let_def split: option.splits)

lemma processFile_cache_other:
  "g \<noteq> f \<Longrightarrow> fileCache (snd (processFile h f m)) g = fileCache m g"
  by (simp add: processFile_def Let_def split: option.splits)

lemma processFile_processed_other:
  "g \<noteq> f \<Longrightarrow> g \<in> processedFiles (snd (processFile h f m)) \<longleftrightarrow> g \<in> processedFiles m"
  by (simp add: processFile_def Let_def split: option.splits)

lemma processFile_fresh:
  assumes "f \<notin> processedFiles m"
  shows "fst (processFile h f m) = contribution h (todoPattern m) (fileCache m) f"
    and "opened (snd (processFile h f m)) =
           opened m @ (if isRead h (fileCache m) f then [f] else [])"
  using assms
  by (simp_all add: processFile_def Let_def contribution_def shouldSkip_def fileAnnotations_def
        isRead_def cacheHit_def split: option.splits)

lemma processBatchFrom_Cons:
  "processBatchFrom h (f # fs) acc m =
     processBatchFrom h fs (acc @ fst (processFile h f m)) (snd (processFile h f m))"
  by (simp add: case_prod_beta)

lemma processBatchFrom_acc:
  "processBatchFrom h fs acc m =
     (acc @ fst (processBatchFrom h fs [] m), snd (processBatchFrom h fs [] m))"
proof (induction fs arbitrary: acc m)
  case Nil
  show ?case by simp
next
  case (Cons f fs)
  show ?case
    unfolding processBatchFrom_Cons
    using Cons.IH [of "acc @ fst (processFile h f m)" "snd (processFile h f m)"]
      Cons.IH [of "[] @ fst (processFile h f m)" "snd (processFile h f m)"]
    by simp
qed

lemma processBatchFrom_snd_acc:
  "snd (processBatchFrom h fs acc m) = snd (processBatchFrom h fs [] m)"
  using processBatchFrom_acc [of h fs acc m] by simp

lemma processBatchFrom_fst_acc:
  "fst (processBatchFrom h fs acc m) = acc @ fst (processBatchFrom h fs [] m)"
  using processBatchFrom_acc [of h fs acc m] by simp

lemma processBatchFrom_snd_append:
  "snd (processBatchFrom h (xs @ ys) [] m) =
     snd (processBatchFrom h ys [] (snd (processBatchFrom h xs [] m)))"
proof (induction xs arbitrary: m)
  case Nil
  show ?case by simp
next
  case (Cons f xs)
  show ?case
    using Cons.IH [of "snd (processFile h f m)"]
    by (simp only: append_Cons processBatchFrom_Cons append_Nil
          processBatchFrom_snd_acc [of h _ "fst (processFile h f m)"])
qed

lemma processBatchFrom_fst_append:
  "fst (processBatchFrom h (xs @ ys) [] m) =
     fst (processBatchFrom h xs [] m) @
     fst (processBatchFrom h ys [] (snd (processBatchFrom h xs [] m)))"
proof (induction xs arbitrary: m)
  case Nil
  show ?case by simp
next
  case (Cons f xs)
  show ?case
    using Cons.IH [of "snd (processFile h f m)"]
    by (simp only: append_Cons processBatchFrom_Cons append_Nil append_assoc
          processBatchFrom_snd_acc [of h _ "fst (processFile h f m)"]
          processBatchFrom_fst_acc [of h _ "fst (processFile h f m)"])
qed

lemma processBatchFrom_todos:
  "todos (snd (processBatchFrom h fs [] m)) = todos m @ fst (processBatchFrom h fs [] m)"
proof (induction fs arbitrary: m)
  case Nil
  show ?case by simp
next
  case (Cons f fs)
  show ?case
    using Cons.IH [of "snd (processFile h f m)"]
    by (simp only: processBatchFrom_Cons append_Nil append_assoc processFile_todos
          processBatchFrom_snd_acc [of h _ "fst (processFile h f m)"]
          processBatchFrom_fst_acc [of h _ "fst (processFile h f m)"])
qed

lemma processBatchFrom_todoPattern:
  "todoPattern (snd (processBatchFrom h fs acc m)) = todoPattern m"
  by (induction fs arbitrary: acc m) (simp_all only: processBatchFrom.simps(1) snd_conv processBatchFrom_Cons processFile_frame)

lemma processBatchFrom_isProcessing:
  "isProcessing (snd (processBatchFrom h fs acc m)) = isProcessing m"
  by (induction fs arbitrary: acc m) (simp_all only: processBatchFrom.simps(1) snd_conv processBatchFrom_Cons processFile_frame)

lemma processBatchFrom_state:
  "state (status (snd (processBatchFrom h fs acc m))) = state (status m)"
  by (induction fs arbitrary: acc m) (simp_all only: processBatchFrom.simps(1) snd_conv processBatchFrom_Cons processFile_frame)

lemma processBatchFrom_contribution:
  assumes "distinct fs" and "set fs \<inter> processedFiles m = {}"
  shows "fst (processBatchFrom h fs [] m) =
           concat (map (contribution h (todoPattern m) (fileCache m)) fs)"
  using assms
proof (induction fs arbitrary: m)
  case Nil
  show ?case by simp
next
  case (Cons f fs)
  define m' where "m' = snd (processFile h f m)"
  from Cons.prems have fresh: "f \<notin> processedFiles m" and d: "distinct fs" and nf: "f \<notin> set fs"
    and disj: "set fs \<inter> processedFiles m = {}" by auto
  have other: "g \<noteq> f" if "g \<in> set fs" for g
    using that nf by auto
  have "g \<notin> processedFiles m'" if "g \<in> set fs" for g
  proof -
    from that disj have "g \<notin> processedFiles m" by auto
    with other [OF that] show ?thesis
      by (simp add: m'_def processFile_processed_other)
  qed
  then have disj': "set fs \<inter> processedFiles m' = {}"
    by auto
  have cache: "fileCache m' g = fileCache m g" if "g \<in> set fs" for g
    using other [OF that] by (simp add: m'_def processFile_cache_other)
  have pat: "todoPattern m' = todoPattern m" by (simp only: m'_def processFile_frame)
  have "map (contribution h (todoPattern m') (fileCache m')) fs =
        map (contribution h (todoPattern m) (fileCache m)) fs"
    using cache by (intro map_cong refl) (simp only: pat contribution_def shouldSkip_def)
  with Cons.IH [OF d disj']
  have ih: "fst (processBatchFrom h fs [] m') =
              concat (map (contribution h (todoPattern m) (fileCache m)) fs)"
    by (simp only:)
  have "fst (processBatchFrom h (f # fs) [] m) =
          fst (processFile h f m) @ fst (processBatchFrom h fs [] m')"
    by (simp only: processBatchFrom_Cons append_Nil m'_def
          processBatchFrom_fst_acc [of h _ "fst (processFile h f m)"])
  then show ?case
    by (simp only: ih processFile_fresh(1) [OF fresh] list.map concat.simps)
qed

lemma processBatchFrom_opened:
  assumes "distinct fs" and "set fs \<inter> processedFiles m = {}"
  shows "opened (snd (processBatchFrom h fs [] m)) =
           opened m @ filter (isRead h (fileCache m)) fs"
  using assms
proof (induction fs arbitrary: m)
  case Nil
  show ?case by simp
next
  case (Cons f fs)
  define m' where "m' = snd (processFile h f m)"
  from Cons.prems have fresh: "f \<notin> processedFiles m" and d: "distinct fs" and nf: "f \<notin> set fs"
    and disj: "set fs \<inter> processedFiles m = {}" by auto
  have other: "g \<noteq> f" if "g \<in> set fs" for g
    using that nf by auto
  have "g \<notin> processedFiles m'" if "g \<in> set fs" for g
  proof -
    from that disj have "g \<notin> processedFiles m" by auto
    with other [OF that] show ?thesis
      by (simp add: m'_def processFile_processed_other)
  qed
  then have disj': "set fs \<inter> processedFiles m' = {}"
    by auto
  have cache: "fileCache m' g = fileCache m g" if "g \<in> set fs" for g
    using other [OF that] by (simp add: m'_def processFile_cache_other)
  have "filter (isRead h (fileCache m')) fs = filter (isRead h (fileCache m)) fs"
    using cache by (intro filter_cong refl) (simp only: isRead_def shouldSkip_def)
  with Cons.IH [OF d disj']
  have ih: "opened (snd (processBatchFrom h fs [] m')) =
              opened m' @ filter (isRead h (fileCache m)) fs"
    by (simp only:)
  have step: "snd (processBatchFrom h (f # fs) [] m) = snd (processBatchFrom h fs [] m')"
    by (simp only: processBatchFrom_Cons append_Nil m'_def
          processBatchFrom_snd_acc [of h _ "fst (processFile h f m)"])
  show ?case
    unfolding step ih
    using processFile_fresh(2) [OF fresh, of h]
    by (simp add: m'_def)
qed

subsection \<open>Batches in sequence\<close>

lemma slice_nonneg:
  assumes "0 \<le> a" and "0 \<le> b"
  shows "slice xs a b = take (nat b - nat a) (drop (nat a) xs)"
proof (cases "a \<le> int (length xs)")
  case True
  show ?thesis
  proof (cases "b \<le> int (length xs)")
    case le: True
    with assms \<open>a \<le> int (length xs)\<close> show ?thesis
      by (simp add: slice_def Let_def min_def max_def nat_diff_distrib')
  next
    case False
    then have "length xs - nat a \<le> nat b - nat a"
      by linarith
    with False assms \<open>a \<le> int (length xs)\<close> show ?thesis
      by (simp add: slice_def Let_def min_def max_def nat_diff_distrib')
  qed
next
  case False
  then have "length xs \<le> nat a"
    by linarith
  with False assms show ?thesis
    by (simp add: slice_def Let_def min_def max_def)
qed

lemma slice_nat:
  "slice xs (int a) (int b) = take (b - a) (drop a xs)"
  using slice_nonneg [of "int a" "int b" xs] by simp

lemma batchLoop_unfold:
  "batchLoop h files i m =
     (if i < length files
      then batchLoop h files (i + batchSize)
             (snd (processBatchFrom h (take batchSize (drop i files)) [] m))
      else m)"
proof -
  have "slice files (int i) (int i + int batchSize) = take batchSize (drop i files)"
    using slice_nat [of files i "i + batchSize"] by simp
  then show ?thesis
    by (subst batchLoop.simps) (simp only: processBatch_def)
qed

lemma batchLoop_sequential:
  "batchLoop h files i m = snd (processBatchFrom h (drop i files) [] m)"
proof (induction h files i m rule: batchLoop.induct)
  case (1 h files i m)
  show ?case
  proof (cases "i < length files")
    case True
    let ?b = "take batchSize (drop i files)"
    have sl: "slice files (int i) (int i + int batchSize) = ?b"
      using slice_nat [of files i "i + batchSize"] by simp
    have "drop (i + batchSize) files = drop batchSize (drop i files)"
      by (simp only: drop_drop add.commute)
    then have split: "?b @ drop (i + batchSize) files = drop i files"
      by (simp only: append_take_drop_id)
    have "batchLoop h files i m =
            batchLoop h files (i + batchSize) (snd (processBatchFrom h ?b [] m))"
      by (subst batchLoop_unfold) (simp only: True if_True)
    also have "\<dots> = snd (processBatchFrom h (drop (i + batchSize) files) []
                          (snd (processBatchFrom h ?b [] m)))"
      using "1.IH" [OF True] by (simp only: sl processBatch_def)
    also have "\<dots> = snd (processBatchFrom h (?b @ drop (i + batchSize) files) [] m)"
      by (simp only: processBatchFrom_snd_append)
    finally show ?thesis
      by (simp only: split)
  next
    case False
    then have "drop i files = []"
      by simp
    then show ?thesis
      by (subst batchLoop_unfold) (simp only: False if_False processBatchFrom.simps snd_conv)
  qed
qed

lemma processRemainingFiles_todos:
  "todos (processRemainingFiles h files m) = todos m @ fst (processBatch h files m)"
  by (simp add: processRemainingFiles_def Let_def batchLoop_sequential processBatch_def
        processBatchFrom_todos)

lemma processRemainingFiles_flags:
  "isProcessing (processRemainingFiles h files m) = False"
  "state (status (processRemainingFiles h files m)) = Complete"
  by (simp_all add: processRemainingFiles_def Let_def)

lemma distinct_dedupe: "distinct (dedupe xs)"
  by (simp add: dedupe_def)

lemma set_dedupe: "set (dedupe xs) = set xs"
  by (simp add: dedupe_def)

subsection \<open>A whole scan\<close>

lemma scanStart_fields:
  "todos (scanStart m n) = []"
  "processedFiles (scanStart m n) = {}"
  "isProcessing (scanStart m n) = True"
  "fileCache (scanStart m n) = fileCache m"
  "todoPattern (scanStart m n) = todoPattern m"
  "opened (scanStart m n) = opened m"
  "state (status (scanStart m n)) = Searching"
  by (simp_all add: scanStart_def)

lemma initializeStream_Listing:
  assumes "workspace h = Listing found"
  shows "initializeStream h m =
     (let files = dedupe (concat found);
          r = processBatchFrom h (take batchSize files) [] (scanStart m (length files))
      in if batchSize < length files
         then (fst r, snd r, Some (drop batchSize files))
         else (fst r, (snd r)\<lparr>status := (status (snd r))\<lparr>state := Complete\<rparr>\<rparr>, None))"
proof -
  have a: "slice xs 0 (int batchSize) = take batchSize xs" for xs :: "string list"
    using slice_nat [of xs 0 batchSize] by simp
  have b: "slice xs (int batchSize) (int (length xs)) = drop batchSize xs" for xs :: "string list"
    using slice_nat [of xs batchSize "length xs"] by simp
  show ?thesis
    by (simp add: initializeStream_def assms Let_def a b processBatch_def scanStart_def
          case_prod_beta)
qed

lemma scan_complete:
  assumes "workspace h = Listing found"
  shows "todos (runBackground h (initializeStream h m)) = todos (scanAll h found m)"
    and "opened (runBackground h (initializeStream h m)) = opened (scanAll h found m)"
    and "state (status (runBackground h (initializeStream h m))) = Complete"
proof -
  define mF where "mF = scanAll h found m"
  note mF_def = mF_def [unfolded scanAll_def]
  let ?files = "dedupe (concat found)"
  let ?m2 = "scanStart m (length ?files)"
  let ?r = "processBatchFrom h (take batchSize ?files) [] ?m2"
  have "todos (runBackground h (initializeStream h m)) = todos mF
    \<and> opened (runBackground h (initializeStream h m)) = opened mF
    \<and> state (status (runBackground h (initializeStream h m))) = Complete"
  proof (cases "batchSize < length ?files")
    case True
    have run: "runBackground h (initializeStream h m) =
                 processRemainingFiles h (drop batchSize ?files) (snd ?r)"
      using True by (simp add: initializeStream_Listing [OF assms(1)] Let_def runBackground_def)
    have "batchLoop h (drop batchSize ?files) 0 (snd ?r) =
            snd (processBatchFrom h (take batchSize ?files @ drop batchSize ?files) [] ?m2)"
      by (simp only: batchLoop_sequential drop_0 processBatchFrom_snd_append)
    then have loop: "batchLoop h (drop batchSize ?files) 0 (snd ?r) = mF"
      by (simp only: append_take_drop_id mF_def)
    show ?thesis
      by (simp add: run processRemainingFiles_def Let_def loop)
  next
    case False
    then have all: "take batchSize ?files = ?files"
      by simp
    have run: "runBackground h (initializeStream h m) =
                 mF\<lparr>status := (status mF)\<lparr>state := Complete\<rparr>\<rparr>"
      using False by (simp add: initializeStream_Listing [OF assms(1)] Let_def runBackground_def all mF_def)
    show ?thesis
      by (simp add: run)
  qed
  then show "todos (runBackground h (initializeStream h m)) = todos (scanAll h found m)"
    and "opened (runBackground h (initializeStream h m)) = opened (scanAll h found m)"
    and "state (status (runBackground h (initializeStream h m))) = Complete"
    by (simp_all add: mF_def scanAll_def)
qed

lemma scan_todos:
  assumes "workspace h = Listing found"
  shows "todos (runBackground h (initializeStream h m)) =
           concat (map (contribution h (todoPattern m) (fileCache m)) (dedupe (concat found)))"
proof -
  let ?files = "dedupe (concat found)"
  let ?m2 = "scanStart m (length ?files)"
  have d: "distinct ?files" by (rule distinct_dedupe)
  have e: "set ?files \<inter> processedFiles ?m2 = {}" by (simp add: scanStart_fields)
  have "todos (snd (processBatchFrom h ?files [] ?m2)) = fst (processBatchFrom h ?files [] ?m2)"
    by (simp add: processBatchFrom_todos scanStart_fields)
  also have "\<dots> = concat (map (contribution h (todoPattern ?m2) (fileCache ?m2)) ?files)"
    by (rule processBatchFrom_contribution [OF d e])
  finally show ?thesis
    by (simp add: scan_complete(1) [OF assms] scanAll_def scanStart_fields)
qed

lemma scan_opened:
  assumes "workspace h = Listing found"
  shows "opened (runBackground h (initializeStream h m)) =
           opened m @ filter (isRead h (fileCache m)) (dedupe (concat found))"
proof -
  let ?files = "dedupe (concat found)"
  let ?m2 = "scanStart m (length ?files)"
  have d: "distinct ?files" by (rule distinct_dedupe)
  have e: "set ?files \<inter> processedFiles ?m2 = {}" by (simp add: scanStart_fields)
  have "opened (snd (processBatchFrom h ?files [] ?m2)) =
          opened ?m2 @ filter (isRead h (fileCache ?m2)) ?files"
    by (rule processBatchFrom_opened [OF d e])
  then show ?thesis
    by (simp add: scan_complete(2) [OF assms] scanAll_def scanStart_fields)
qed

lemma first_batch:
  assumes "workspace h = Listing found"
  shows "fst (initializeStream h m) =
           concat (map (contribution h (todoPattern m) (fileCache m))
                       (take batchSize (dedupe (concat found))))"
    and "isProcessing (fst (snd (initializeStream h m))) = True"
    and "snd (snd (initializeStream h m)) =
           (if batchSize < length (dedupe (concat found))
            then Some (drop batchSize (dedupe (concat found))) else None)"
    and "state (status (fst (snd (initializeStream h m)))) =
           (if batchSize < length (dedupe (concat found)) then Searching else Complete)"
proof -
  let ?files = "dedupe (concat found)"
  let ?m2 = "scanStart m (length ?files)"
  have d: "distinct (take batchSize ?files)" by (simp add: distinct_dedupe)
  have e: "set (take batchSize ?files) \<inter> processedFiles ?m2 = {}" by (simp add: scanStart_fields)
  have "fst (initializeStream h m) = fst (processBatchFrom h (take batchSize ?files) [] ?m2)"
    by (simp add: initializeStream_Listing [OF assms] Let_def)
  also have "\<dots> = concat (map (contribution h (todoPattern ?m2) (fileCache ?m2)) (take batchSize ?files))"
    by (rule processBatchFrom_contribution [OF d e])
  finally show "fst (initializeStream h m) =
           concat (map (contribution h (todoPattern m) (fileCache m))
                       (take batchSize (dedupe (concat found))))"
    by (simp add: scanStart_fields)
  show "isProcessing (fst (snd (initializeStream h m))) = True"
    by (simp add: initializeStream_Listing [OF assms] Let_def processBatchFrom_isProcessing scanStart_fields)
  show "snd (snd (initializeStream h m)) =
           (if batchSize < length (dedupe (concat found))
            then Some (drop batchSize (dedupe (concat found))) else None)"
    by (simp add: initializeStream_Listing [OF assms] Let_def)
  show "state (status (fst (snd (initializeStream h m)))) =
           (if batchSize < length (dedupe (concat found)) then Searching else Complete)"
    by (simp add: initializeStream_Listing [OF assms] Let_def processBatchFrom_state scanStart_fields)
qed

lemma makeTodo_file: "todo_file (makeTodo h f txt mt) = f"
proof -
  obtain start e rest cs where mt: "mt = (start, e, rest, cs)"
    by (cases mt) auto
  show ?thesis
    unfolding mt makeTodo_def Let_def by simp
qed

lemma matchTodos_file: "x \<in> set (matchTodos h p f txt) \<Longrightarrow> todo_file x = f"
  by (auto simp: matchTodos_def makeTodo_file)

lemma contribution_file: "x \<in> set (contribution h pat cache f) \<Longrightarrow> todo_file x = f"
  by (auto simp: contribution_def fileAnnotations_def matchTodos_file split: option.splits if_splits)

lemma filter_contributions:
  assumes "distinct fs" and "f \<in> set fs"
  shows "filter (\<lambda>x. todo_file x = f) (concat (map (contribution h pat cache) fs)) =
           contribution h pat cache f"
  using assms
proof (induction fs)
  case Nil
  then show ?case by simp
next
  case (Cons g fs)
  have own: "filter (\<lambda>x. todo_file x = f) (contribution h pat cache f) = contribution h pat cache f"
    by (rule filter_True) (simp add: contribution_file)
  have none: "filter (\<lambda>x. todo_file x = f) (contribution h pat cache g') = []" if "g' \<noteq> f" for g'
    using that by (auto simp: filter_empty_conv dest: contribution_file)
  show ?case
  proof (cases "g = f")
    case True
    with Cons.prems have "f \<notin> set fs" by simp
    then have "filter (\<lambda>x. todo_file x = f) (concat (map (contribution h pat cache) fs)) = []"
      by (auto simp: filter_empty_conv dest: contribution_file)
    with True own show ?thesis by simp
  next
    case False
    with Cons.prems have "f \<in> set fs" and "distinct fs" by simp_all
    with Cons.IH none [OF False] show ?thesis by simp
  qed
qed

lemma shouldSkip_iff:
  "stat h f = Some t \<Longrightarrow>
     shouldSkip h cache f \<longleftrightarrow> (\<exists>c. cache f = Some c \<and> lastModified c = t)"
  by (simp add: shouldSkip_def split: option.splits)

text \<open>
  C3. For a workspace whose listing, once de-duplicated, has N files:
  \<^verbatim>\<open>initializeStream\<close> returns, in enumeration order, the annotations that processing
  the first \<open>min 20 N\<close> files yields and nothing else; \<^verbatim>\<open>isStillProcessing()\<close> is true
  at return; when N exceeds 20 the remaining files are handed to the background call,
  which processes them in batches of 20. After it the state is \<open>complete\<close> and the store
  holds what all N files yield, so \<^verbatim>\<open>getTotalCount()\<close> counts all of them. What a
  file yields is nothing when its cache entry is current or it cannot be read, and the
  annotations of its text otherwise; on a manager just obtained from \<^verbatim>\<open>getInstance\<close>
  the cache is empty and every readable file yields its annotations.
\<close>

theorem first_batch_then_background:
  assumes "workspace h = Listing found"
  shows "fst (initializeStream h m)
           = concat (map (contribution h (todoPattern m) (fileCache m))
                         (take batchSize (dedupe (concat found))))
         \<and> todo_file ` set (fst (initializeStream h m))
             \<subseteq> set (take batchSize (dedupe (concat found)))
         \<and> isStillProcessing (fst (snd (initializeStream h m)))
         \<and> snd (snd (initializeStream h m))
             = (if batchSize < length (dedupe (concat found))
                then Some (drop batchSize (dedupe (concat found))) else None)
         \<and> state (getStatus (runBackground h (initializeStream h m))) = Complete
         \<and> todos (runBackground h (initializeStream h m))
             = concat (map (contribution h (todoPattern m) (fileCache m)) (dedupe (concat found)))
         \<and> getTotalCount (runBackground h (initializeStream h m))
             = length (concat (map (contribution h (todoPattern m) (fileCache m))
                                   (dedupe (concat found))))
         \<and> todos (runBackground h (initializeStream h (getInstance h inst)))
             = concat (map (fileAnnotations h (todoPattern (getInstance h inst)))
                           (dedupe (concat found)))"
proof -
  have fresh: "fileCache (getInstance h inst) = Map.empty"
    by (cases inst) (simp_all add: getInstance_def newTodoManager_def initialize_def)
  have "contribution h pat Map.empty = fileAnnotations h pat" for pat
    by (rule ext) (simp add: contribution_def shouldSkip_def split: option.splits)
  with scan_todos [OF assms, of "getInstance h inst"] fresh
  have all: "todos (runBackground h (initializeStream h (getInstance h inst)))
             = concat (map (fileAnnotations h (todoPattern (getInstance h inst)))
                           (dedupe (concat found)))"
    by simp
  have only: "todo_file ` set (fst (initializeStream h m))
                \<subseteq> set (take batchSize (dedupe (concat found)))"
  proof
    fix p
    assume "p \<in> todo_file ` set (fst (initializeStream h m))"
    then obtain x where x: "x \<in> set (fst (initializeStream h m))" and p: "p = todo_file x"
      by blast
    from x obtain g where g: "g \<in> set (take batchSize (dedupe (concat found)))"
      and xg: "x \<in> set (contribution h (todoPattern m) (fileCache m) g)"
      unfolding first_batch(1) [OF assms] by auto
    from contribution_file [OF xg] g p show "p \<in> set (take batchSize (dedupe (concat found)))"
      by simp
  qed
  from first_batch [OF assms, of m] scan_complete(3) [OF assms, of m] scan_todos [OF assms, of m]
    all only
  show ?thesis
    by (simp add: isStillProcessing_def getStatus_def getTotalCount_def)
qed

theorem first_batch_then_background_witness:
  "workspace host21 = Listing [files21]
   \<and> length (dedupe (concat [files21])) = 21
   \<and> fst (initializeStream host21 (getInstance host21 None))
       = concat (map (contribution host21 (todoPattern (getInstance host21 None))
                        (fileCache (getInstance host21 None)))
                     (take batchSize (dedupe (concat [files21]))))
   \<and> map todo_text (fst (initializeStream host21 (getInstance host21 None))) = [''[FIXME] first'']
   \<and> map todo_file (fst (initializeStream host21 (getInstance host21 None))) = [''f01'']
   \<and> isStillProcessing (fst (snd (initializeStream host21 (getInstance host21 None))))
   \<and> snd (snd (initializeStream host21 (getInstance host21 None))) = Some [''f21'']
   \<and> state (getStatus (runBackground host21 (initializeStream host21 (getInstance host21 None))))
       = Complete
   \<and> map todo_text (todos (runBackground host21 (initializeStream host21 (getInstance host21 None))))
       = [''[FIXME] first'', ''[TODO] late'']
   \<and> getTotalCount (runBackground host21 (initializeStream host21 (getInstance host21 None))) = 2"
proof -
  have h1: "workspace host21 = Listing [files21]"
    by (simp add: host21_def tableHost_def)
  have n: "length (dedupe (concat [files21])) = 21"
    by code_simp
  have first: "map todo_text (fst (initializeStream host21 (getInstance host21 None)))
                 = [''[FIXME] first'']"
    by code_simp
  have origin: "map todo_file (fst (initializeStream host21 (getInstance host21 None))) = [''f01'']"
    by code_simp
  have pending: "snd (snd (initializeStream host21 (getInstance host21 None))) = Some [''f21'']"
    by code_simp
  have final: "map todo_text
                 (todos (runBackground host21 (initializeStream host21 (getInstance host21 None))))
                 = [''[FIXME] first'', ''[TODO] late'']"
    by code_simp
  have total: "getTotalCount (runBackground host21 (initializeStream host21 (getInstance host21 None)))
                 = 2"
    by code_simp
  from first_batch_then_background [OF h1, of "getInstance host21 None" None]
    h1 n first origin pending final total
  show ?thesis
    by blast
qed

subsection \<open>Which files a scan reads\<close>

text \<open>
  C5. In a scan, an enumerated file whose stat succeeds is skipped (its document is not
  opened) if and only if the cache holds an entry for it whose stored fingerprint
  equals the current mtime: the files a scan opens are exactly the enumerated files
  that are not such cache hits, in enumeration order. In particular a file whose mtime
  differs from the cached one is read again, and the annotations the store holds for it
  after the scan are those of its current text.
\<close>

theorem scan_skips_exactly_cache_hits:
  assumes "workspace h = Listing found" and "f \<in> set (concat found)" and "stat h f = Some t"
  shows "opened (runBackground h (initializeStream h m))
           = opened m @ filter (isRead h (fileCache m)) (dedupe (concat found))
         \<and> (f \<notin> set (drop (length (opened m)) (opened (runBackground h (initializeStream h m))))
              \<longleftrightarrow> (\<exists>c. fileCache m f = Some c \<and> lastModified c = t))
         \<and> filter (\<lambda>x. todo_file x = f) (todos (runBackground h (initializeStream h m)))
             = (if \<exists>c. fileCache m f = Some c \<and> lastModified c = t then []
                else fileAnnotations h (todoPattern m) f)"
proof -
  let ?files = "dedupe (concat found)"
  have mem: "f \<in> set ?files"
    using assms(2) by (simp add: set_dedupe)
  have op: "opened (runBackground h (initializeStream h m))
              = opened m @ filter (isRead h (fileCache m)) ?files"
    by (rule scan_opened [OF assms(1)])
  have "f \<notin> set (drop (length (opened m)) (opened (runBackground h (initializeStream h m))))
          \<longleftrightarrow> \<not> isRead h (fileCache m) f"
    using mem by (simp add: op)
  also have "\<dots> \<longleftrightarrow> (\<exists>c. fileCache m f = Some c \<and> lastModified c = t)"
    using shouldSkip_iff [OF assms(3)] assms(3) by (simp add: isRead_def)
  finally have skip: "f \<notin> set (drop (length (opened m)) (opened (runBackground h (initializeStream h m))))
          \<longleftrightarrow> (\<exists>c. fileCache m f = Some c \<and> lastModified c = t)" .
  have "filter (\<lambda>x. todo_file x = f) (todos (runBackground h (initializeStream h m)))
          = contribution h (todoPattern m) (fileCache m) f"
    by (simp only: scan_todos [OF assms(1)] filter_contributions [OF distinct_dedupe mem])
  also have "\<dots> = (if \<exists>c. fileCache m f = Some c \<and> lastModified c = t then []
                else fileAnnotations h (todoPattern m) f)"
    using shouldSkip_iff [OF assms(3)] by (simp add: contribution_def)
  finally have ext: "filter (\<lambda>x. todo_file x = f) (todos (runBackground h (initializeStream h m)))
             = (if \<exists>c. fileCache m f = Some c \<and> lastModified c = t then []
                else fileAnnotations h (todoPattern m) f)" .
  from op skip ext show ?thesis
    by blast
qed

theorem scan_skips_exactly_cache_hits_witness:
  "workspace hostOneEdited = Listing [[''a.ts'']]
   \<and> ''a.ts'' \<in> set (concat [[''a.ts'']])
   \<and> stat hostOneEdited ''a.ts'' = Some 2
   \<and> map_option lastModified (fileCache managerOne ''a.ts'') = Some 1
   \<and> (''a.ts'' \<notin> set (drop (length (opened managerOne))
                          (opened (runBackground hostOneEdited
                                     (initializeStream hostOneEdited managerOne))))
        \<longleftrightarrow> (\<exists>c. fileCache managerOne ''a.ts'' = Some c \<and> lastModified c = 2))
   \<and> opened managerOne = [''a.ts'']
   \<and> opened (runBackground hostOneEdited (initializeStream hostOneEdited managerOne))
       = [''a.ts'', ''a.ts'']
   \<and> opened (runBackground hostOne (initializeStream hostOne managerOne)) = [''a.ts'']"
proof -
  have h1: "workspace hostOneEdited = Listing [[''a.ts'']]"
    by (simp add: hostOneEdited_def tableHost_def)
  have h2: "''a.ts'' \<in> set (concat [[''a.ts'']])"
    by simp
  have h3: "stat hostOneEdited ''a.ts'' = Some 2"
    by (simp add: hostOneEdited_def tableHost_def)
  have cached: "map_option lastModified (fileCache managerOne ''a.ts'') = Some 1"
    by code_simp
  have before: "opened managerOne = [''a.ts'']"
    by code_simp
  have changed: "opened (runBackground hostOneEdited (initializeStream hostOneEdited managerOne))
                   = [''a.ts'', ''a.ts'']"
    by code_simp
  have unchanged: "opened (runBackground hostOne (initializeStream hostOne managerOne)) = [''a.ts'']"
    by code_simp
  from scan_skips_exactly_cache_hits [OF h1 h2 h3, of managerOne]
    h1 h2 h3 cached before changed unchanged
  show ?thesis
    by blast
qed

subsection \<open>A continuation that outlives its scan\<close>

text \<open>
  C4, as stated, fails: the source has no generation token. In the scenario below the
  first scan returns with the 21st file pending; a refresh over a listing that holds
  only the first file completes with one annotation in the store; the pending
  continuation of the first scan then runs and adds the annotation of the 21st file,
  which the fresh scan never enumerated.
\<close>

theorem stale_continuation_enters_store:
  "snd (snd staleFirst) = Some [''f21'']
   \<and> snd staleFresh = None
   \<and> state (getStatus (fst staleFresh)) = Complete
   \<and> map todo_file (todos (fst staleFresh)) = [''f01'']
   \<and> map todo_file (todos staleAfter) = [''f01'', ''f21'']
   \<and> map todo_text (todos staleAfter) = [''[FIXME] first'', ''[TODO] late'']"
proof -
  have a: "snd (snd staleFirst) = Some [''f21'']"
    by code_simp
  have b: "snd staleFresh = None"
    by code_simp
  have c: "state (getStatus (fst staleFresh)) = Complete"
    by code_simp
  have d: "map todo_file (todos (fst staleFresh)) = [''f01'']"
    by code_simp
  have e: "map todo_file (todos staleAfter) = [''f01'', ''f21'']"
    by code_simp
  have f: "map todo_text (todos staleAfter) = [''[FIXME] first'', ''[TODO] late'']"
    by code_simp
  from a b c d e f show ?thesis
    by (intro conjI)
qed

text \<open>
  C4, amended. Nothing marks a background continuation as stale. Whenever it runs, on
  whatever manager a later scan has left, it discards nothing: the store afterwards is
  the store before followed by every annotation its batches extracted. It then clears
  the processing flag and sets the state to \<open>complete\<close>.
\<close>

theorem stale_continuation_appends:
  "todos (processRemainingFiles h files m) = todos m @ fst (processBatch h files m)
   \<and> isStillProcessing (processRemainingFiles h files m) = False
   \<and> state (getStatus (processRemainingFiles h files m)) = Complete"
  by (simp add: processRemainingFiles_todos processRemainingFiles_flags isStillProcessing_def
        getStatus_def)

subsection \<open>The flat list and the per-file grouping\<close>

text \<open>
  C1. The two views are not kept consistent. After a first scan finds one annotation in
  \<^verbatim>\<open>a.ts\<close>, the file is edited so that it holds none and a refresh runs:
  \<^verbatim>\<open>refreshTodos\<close> and \<^verbatim>\<open>initializeStream\<close> reset the flat list but not
  \<^verbatim>\<open>todosByFile\<close>, and \<^verbatim>\<open>processBatch\<close> writes the grouping of a file only when it
  found something. The total count is 0 while the count for \<^verbatim>\<open>a.ts\<close> is still 1.
\<close>

theorem refresh_keeps_stale_grouping:
  "getTotalCount managerOne = 1
   \<and> getTodoCountInFile managerOne ''a.ts'' = 1
   \<and> snd (refreshTodos hostOneEdited managerOne) = None
   \<and> state (getStatus (fst (refreshTodos hostOneEdited managerOne))) = Complete
   \<and> getTotalCount (fst (refreshTodos hostOneEdited managerOne)) = 0
   \<and> getTodoCountInFile (fst (refreshTodos hostOneEdited managerOne)) ''a.ts'' = 1
   \<and> map todo_text (getTodosInFile (fst (refreshTodos hostOneEdited managerOne)) ''a.ts'')
       = [''[TODO] x'']"
proof -
  have a: "getTotalCount managerOne = 1"
    by code_simp
  have b: "getTodoCountInFile managerOne ''a.ts'' = 1"
    by code_simp
  have c: "snd (refreshTodos hostOneEdited managerOne) = None"
    by code_simp
  have d: "state (getStatus (fst (refreshTodos hostOneEdited managerOne))) = Complete"
    by code_simp
  have e: "getTotalCount (fst (refreshTodos hostOneEdited managerOne)) = 0"
    by code_simp
  have f: "getTodoCountInFile (fst (refreshTodos hostOneEdited managerOne)) ''a.ts'' = 1"
    by code_simp
  have g: "map todo_text (getTodosInFile (fst (refreshTodos hostOneEdited managerOne)) ''a.ts'')
             = [''[TODO] x'']"
    by code_simp
  from a b c d e f g show ?thesis
    by (intro conjI)
qed

text \<open>
  C2. The delete handler filters the flat list only. After a scan stores the three
  annotations of \<^verbatim>\<open>a.ts\<close> and the file is deleted, the flat list is empty, but
  \<^verbatim>\<open>getTodoCountInFile\<close> still answers 3 for it, not 0.
\<close>

theorem delete_keeps_grouping:
  "getTotalCount managerThree = 3
   \<and> getTodoCountInFile managerThree ''a.ts'' = 3
   \<and> getTotalCount (onDidDelete ''a.ts'' managerThree) = 0
   \<and> getTodoCountInFile (onDidDelete ''a.ts'' managerThree) ''a.ts'' = 3
   \<and> getTodoCountInFile (dispose managerThree) ''a.ts'' = 0"
proof -
  have a: "getTotalCount managerThree = 3"
    by code_simp
  have b: "getTodoCountInFile managerThree ''a.ts'' = 3"
    by code_simp
  have c: "getTotalCount (onDidDelete ''a.ts'' managerThree) = 0"
    by code_simp
  have d: "getTodoCountInFile (onDidDelete ''a.ts'' managerThree) ''a.ts'' = 3"
    by code_simp
  have e: "getTodoCountInFile (dispose managerThree) ''a.ts'' = 0"
    by code_simp
  from a b c d e show ?thesis
    by (intro conjI)
qed

subsection \<open>Extraction on concrete texts\<close>

text \<open>
  C6. With the default marker pattern, the text \<^verbatim>\<open>// TODO: fix this\<close> yields exactly one
  annotation, of kind \<^verbatim>\<open>TODO\<close> with message \<^verbatim>\<open>fix this\<close>, and the text
  \<^verbatim>\<open># FIXME add validation\<close>, which has no separator after the marker, yields exactly
  one annotation, of kind \<^verbatim>\<open>FIXME\<close> with message \<^verbatim>\<open>add validation\<close>. The stored
  \<^verbatim>\<open>Todo\<close> carries them as the text \<^verbatim>\<open>[KIND] message\<close>, for any host and file name.
\<close>

theorem scenario_todo_and_fixme:
  "candidates defaultPattern ''// TODO: fix this'' = [(''TODO'', ''fix this'')]
   \<and> candidates defaultPattern ''# FIXME add validation'' = [(''FIXME'', ''add validation'')]
   \<and> map todo_text (matchTodos h defaultPattern f ''// TODO: fix this'') = [''[TODO] fix this'']
   \<and> map todo_text (matchTodos h defaultPattern f ''# FIXME add validation'')
       = [''[FIXME] add validation'']"
proof -
  have a: "candidates defaultPattern ''// TODO: fix this'' = [(''TODO'', ''fix this'')]"
    by code_simp
  have b: "candidates defaultPattern ''# FIXME add validation''
             = [(''FIXME'', ''add validation'')]"
    by code_simp
  have c: "map todo_text (matchTodos h defaultPattern f ''// TODO: fix this'')
             = [''[TODO] fix this'']"
    by code_simp
  have d: "map todo_text (matchTodos h defaultPattern f ''# FIXME add validation'')
             = [''[FIXME] add validation'']"
    by code_simp
  from a b c d show ?thesis
    by (intro conjI)
qed

text \<open>
  C7. The guard \<^verbatim>\<open>match[1] && match[2]\<close> tests the captures before they are trimmed.
  On the text \<^verbatim>\<open>// TODO: \<close> (a marker followed by one blank) the lazy message group
  captures the blank, the guard passes, and an annotation whose message is empty after
  trimming is emitted and stored as \<^verbatim>\<open>[TODO] \<close>.
\<close>

theorem blank_message_is_emitted:
  "candidates defaultPattern ''// TODO: '' = [(''TODO'', [])]
   \<and> map todo_text (matchTodos h defaultPattern f ''// TODO: '') = [''[TODO] '']"
proof -
  have a: "candidates defaultPattern ''// TODO: '' = [(''TODO'', [])]"
    by code_simp
  have b: "map todo_text (matchTodos h defaultPattern f ''// TODO: '') = [''[TODO] '']"
    by code_simp
  from a b show ?thesis
    by (intro conjI)
qed

subsection \<open>The singleton accessor\<close>

text \<open>
  C10. When an instance already exists, \<^verbatim>\<open>getInstance\<close> runs \<^verbatim>\<open>initialize\<close> on it: the
  flat list, the file cache and the processed-file set are emptied, the processing flag
  is cleared and the status is reset to idle, while the per-file grouping keeps what it
  held. The call is therefore a mutation: on a manager that holds an annotation it does
  not return the manager unchanged.
\<close>

theorem getInstance_reinitializes:
  "getInstance h (Some m) = initialize h m
   \<and> todos (getInstance h (Some m)) = []
   \<and> fileCache (getInstance h (Some m)) = Map.empty
   \<and> processedFiles (getInstance h (Some m)) = {}
   \<and> isProcessing (getInstance h (Some m)) = False
   \<and> status (getInstance h (Some m)) = idleStatus
   \<and> state (status (getInstance h (Some m))) = Idle
   \<and> todosByFile (getInstance h (Some m)) = todosByFile m
   \<and> getInstance h (Some (m\<lparr>todos := t # ts\<rparr>)) \<noteq> m\<lparr>todos := t # ts\<rparr>"
proof -
  have reset: "getInstance h (Some m) = initialize h m
      \<and> todos (getInstance h (Some m)) = []
      \<and> fileCache (getInstance h (Some m)) = Map.empty
      \<and> processedFiles (getInstance h (Some m)) = {}
      \<and> isProcessing (getInstance h (Some m)) = False
      \<and> status (getInstance h (Some m)) = idleStatus
      \<and> state (status (getInstance h (Some m))) = Idle
      \<and> todosByFile (getInstance h (Some m)) = todosByFile m"
    by (simp add: getInstance_def initialize_def idleStatus_def)
  have changed: "getInstance h (Some (m\<lparr>todos := t # ts\<rparr>)) \<noteq> m\<lparr>todos := t # ts\<rparr>"
  proof
    assume same: "getInstance h (Some (m\<lparr>todos := t # ts\<rparr>)) = m\<lparr>todos := t # ts\<rparr>"
    have "todos (getInstance h (Some (m\<lparr>todos := t # ts\<rparr>))) = []"
      by (simp add: getInstance_def initialize_def)
    then have "todos (m\<lparr>todos := t # ts\<rparr>) = []"
      by (simp only: same)
    then show False
      by simp
  qed
  from reset changed show ?thesis
    by blast
qed

subsection \<open>Paging through the store\<close>

lemma getNextBatch_nonneg:
  assumes "0 \<le> i"
  shows "getNextBatch m i = take batchSize (drop (nat i) (todos m))"
proof (cases "i + int batchSize \<le> int (length (todos m))")
  case True
  with assms show ?thesis
    by (simp add: getNextBatch_def Let_def slice_nonneg min_def nat_add_distrib)
next
  case False
  show ?thesis
  proof (cases "i \<le> int (length (todos m))")
    case True
    with False assms have "length (todos m) - nat i \<le> batchSize"
      by linarith
    with False assms show ?thesis
      by (simp add: getNextBatch_def Let_def slice_nonneg min_def)
  next
    case False
    then have "length (todos m) \<le> nat i"
      by linarith
    with assms \<open>\<not> i + int batchSize \<le> int (length (todos m))\<close> show ?thesis
      by (simp add: getNextBatch_def Let_def slice_nonneg min_def)
  qed
qed

lemma concat_chunks:
  "concat (map (\<lambda>k. take b (drop (k * b) xs)) [0..<n]) = take (n * b) xs"
proof (induction n)
  case 0
  show ?case by simp
next
  case (Suc n)
  have "take (n * b + b) xs = take (n * b) xs @ take b (drop (n * b) xs)"
    by (rule take_add)
  with Suc show ?case
    by (simp add: add.commute)
qed

text \<open>
  C8. With the batch size of 20, the batches \<open>getNextBatch 0\<close>, \<open>getNextBatch 20\<close>,
  \<open>getNextBatch 40\<close>, ... taken up to the length of the store and concatenated give
  back the flat sequence exactly: batch \<open>k\<close> is the 20 annotations from position \<open>20 k\<close>
  on, so nothing is skipped and nothing repeated. For an offset \<open>i\<close> (an index, so not
  negative), \<open>getNextBatch i\<close> is empty exactly when \<open>i\<close> is at or past the length.
\<close>

theorem getNextBatch_reconstructs:
  assumes "length (todos m) \<le> n * batchSize" and "0 \<le> i"
  shows "concat (map (\<lambda>k. getNextBatch m (int (k * batchSize))) [0..<n]) = todos m
         \<and> getNextBatch m (int (k * batchSize)) = take batchSize (drop (k * batchSize) (todos m))
         \<and> (getNextBatch m i = [] \<longleftrightarrow> int (length (todos m)) \<le> i)"
proof -
  have each: "getNextBatch m (int (j * batchSize)) = take batchSize (drop (j * batchSize) (todos m))" for j
  proof -
    have "0 \<le> int (j * batchSize)"
      by (rule of_nat_0_le_iff)
    from getNextBatch_nonneg [OF this] show ?thesis
      by (simp only: nat_int)
  qed
  have "concat (map (\<lambda>k. getNextBatch m (int (k * batchSize))) [0..<n]) = take (n * batchSize) (todos m)"
    by (simp only: each concat_chunks)
  with assms(1) have whole: "concat (map (\<lambda>k. getNextBatch m (int (k * batchSize))) [0..<n]) = todos m"
    by simp
  have "getNextBatch m i = [] \<longleftrightarrow> length (todos m) \<le> nat i"
    using getNextBatch_nonneg [OF assms(2), of m] by (simp add: batchSize_def)
  also have "\<dots> \<longleftrightarrow> int (length (todos m)) \<le> i"
    using assms(2) by linarith
  finally have empty: "getNextBatch m i = [] \<longleftrightarrow> int (length (todos m)) \<le> i" .
  from whole each [of k] empty show ?thesis
    by blast
qed

theorem getNextBatch_reconstructs_witness:
  "length (todos manager45) \<le> 3 * batchSize \<and> (0::int) \<le> 45
   \<and> concat (map (\<lambda>k. getNextBatch manager45 (int (k * batchSize))) [0..<3]) = todos manager45
   \<and> getNextBatch manager45 (int (2 * batchSize))
       = take batchSize (drop (2 * batchSize) (todos manager45))
   \<and> (getNextBatch manager45 45 = [] \<longleftrightarrow> int (length (todos manager45)) \<le> 45)
   \<and> length (todos manager45) = 45"
proof -
  have len: "length (todos manager45) = 45"
    by code_simp
  have h1: "length (todos manager45) \<le> 3 * batchSize"
    by (simp add: len batchSize_def)
  have h2: "(0::int) \<le> 45"
    by simp
  from getNextBatch_reconstructs [OF h1 h2, of 2] h1 h2 len show ?thesis
    by blast
qed

subsection \<open>Removing an annotation\<close>

lemma removeTodo_success_iff:
  "fst (removeTodo h t) \<longleftrightarrow>
     (\<exists>x. t = Some x \<and> todo_file x \<noteq> [] \<and> openTextDocument h (todo_file x) \<noteq> None
          \<and> applyEdit h (todo_file x) (todo_range x) = Some True)"
  by (auto simp: removeTodo_def split: option.splits)

lemma removeTodo_failure_notice:
  "\<not> fst (removeTodo h t) \<Longrightarrow>
     \<exists>msg. snd (removeTodo h t) = ErrorMessage msg \<or> snd (removeTodo h t) = WarningMessage msg"
  by (auto simp: removeTodo_def split: option.splits if_splits)

lemma successful_removal_rescans:
  assumes "p_currentTodoIndex p < length (p_todos p)"
    and "fst (removeTodo h (Some (p_todos p ! p_currentTodoIndex p)))"
  shows "fst (handleComplete h p) = loadInitialTodos h p"
  using assms by (simp add: handleComplete_def case_prod_beta)

text \<open>
  C9. When \<^verbatim>\<open>removeTodo\<close> fails on the panel's current annotation (it succeeds only for
  a valid item whose document opens and whose edit is applied, see
  \<open>removeTodo_success_iff\<close>), it returns false and shows an error or a warning message,
  and the \<^verbatim>\<open>complete\<close> handler does nothing else: the panel and the manager, so the
  store's annotation list, are unchanged and no scan is started.
\<close>

theorem failed_removal_leaves_store:
  assumes "p_currentTodoIndex p < length (p_todos p)"
    and "\<not> fst (removeTodo h (Some (p_todos p ! p_currentTodoIndex p)))"
  shows "handleComplete h p = (p, [snd (removeTodo h (Some (p_todos p ! p_currentTodoIndex p)))])
         \<and> todos (p_todoManager (fst (handleComplete h p))) = todos (p_todoManager p)
         \<and> p_background (fst (handleComplete h p)) = p_background p
         \<and> (\<exists>msg. snd (handleComplete h p) = [ErrorMessage msg]
                  \<or> snd (handleComplete h p) = [WarningMessage msg])"
proof -
  let ?r = "removeTodo h (Some (p_todos p ! p_currentTodoIndex p))"
  have hc: "handleComplete h p = (p, [snd ?r])"
    using assms by (simp add: handleComplete_def case_prod_beta)
  from removeTodo_failure_notice [OF assms(2)] obtain msg
    where "snd ?r = ErrorMessage msg \<or> snd ?r = WarningMessage msg" ..
  with hc show ?thesis
    by auto
qed

theorem failed_removal_leaves_store_witness:
  "p_currentTodoIndex panelOne < length (p_todos panelOne)
   \<and> \<not> fst (removeTodo hostOne (Some (p_todos panelOne ! p_currentTodoIndex panelOne)))
   \<and> handleComplete hostOne panelOne
       = (panelOne, [snd (removeTodo hostOne (Some (p_todos panelOne ! p_currentTodoIndex panelOne)))])
   \<and> todos (p_todoManager (fst (handleComplete hostOne panelOne))) = todos (p_todoManager panelOne)
   \<and> snd (handleComplete hostOne panelOne)
       = [WarningMessage ''TODO Tok: Could not remove TODO. The file might be read-only.'']"
proof -
  have h1: "p_currentTodoIndex panelOne < length (p_todos panelOne)"
    by code_simp
  have h2: "\<not> fst (removeTodo hostOne (Some (p_todos panelOne ! p_currentTodoIndex panelOne)))"
    by code_simp
  have shown: "snd (removeTodo hostOne (Some (p_todos panelOne ! p_currentTodoIndex panelOne)))
                 = WarningMessage ''TODO Tok: Could not remove TODO. The file might be read-only.''"
    by code_simp
  from failed_removal_leaves_store [OF h1 h2] h1 h2 shown show ?thesis
    by simp
qed

end
